theory Spec2Isabelle
  imports Main
begin

section \<open>Characters and strings\<close>

text \<open>
  The program works on Python \<open>str\<close> values. A character here is a code point
  below 256 (the Latin-1 block), which is what \<^typ>\<open>char\<close> holds; \<^term>\<open>code\<close>
  reads its number. The classes below are the ones the \<open>re\<close> module and \<open>str\<close>
  methods use on a \<open>str\<close>, restricted to that block.
\<close>

definition code :: "char \<Rightarrow> nat" where
  "code c = of_char c"

text \<open>\<open>\d\<close>: the decimal digits; below 256 these are \<open>0\<close> to \<open>9\<close>.\<close>

definition is_digit :: "char \<Rightarrow> bool" where
  "is_digit c = (48 \<le> code c \<and> code c \<le> 57)"

text \<open>
  \<open>\s\<close>, \<open>str.split()\<close> and \<open>str.strip()\<close> share one notion of whitespace: tab to
  carriage return, the four separators 28 to 31, the space, and below 256 also
  NEL (133) and the no-break space (160).
\<close>

definition is_space :: "char \<Rightarrow> bool" where
  "is_space c = ((9 \<le> code c \<and> code c \<le> 13) \<or> (28 \<le> code c \<and> code c \<le> 32)
     \<or> code c = 133 \<or> code c = 160)"

definition is_ascii_upper :: "char \<Rightarrow> bool" where
  "is_ascii_upper c = (65 \<le> code c \<and> code c \<le> 90)"

definition is_ascii_lower :: "char \<Rightarrow> bool" where
  "is_ascii_lower c = (97 \<le> code c \<and> code c \<le> 122)"

text \<open>
  \<open>[A-Z]\<close> and \<open>[A-Za-z]\<close> under \<open>re.IGNORECASE\<close>: the flag applies to the whole
  pattern, so both classes accept the ASCII letters of either case.
\<close>

definition is_letter :: "char \<Rightarrow> bool" where
  "is_letter c = (is_ascii_upper c \<or> is_ascii_lower c)"

text \<open>\<open>[A-Za-z\s]\<close> under \<open>re.IGNORECASE\<close>.\<close>

definition is_letter_or_space :: "char \<Rightarrow> bool" where
  "is_letter_or_space c = (is_letter c \<or> is_space c)"

text \<open>
  \<open>str.isupper()\<close> of a single character: the uppercase letters, which below 256
  are \<open>A\<close> to \<open>Z\<close> and the accented capitals 192 to 222 without the
  multiplication sign 215.
\<close>

definition isupper :: "char \<Rightarrow> bool" where
  "isupper c = (is_ascii_upper c \<or> (192 \<le> code c \<and> code c \<le> 222 \<and> code c \<noteq> 215))"

text \<open>
  \<open>str.upper()\<close>. The program calls it on a match of the ID pattern only, whose
  characters are ASCII letters and digits; there it maps \<open>a\<close> to \<open>z\<close> onto
  \<open>A\<close> to \<open>Z\<close> and keeps everything else.
\<close>

definition upper_char :: "char \<Rightarrow> char" where
  "upper_char c = (if is_ascii_lower c then char_of (code c - 32) else c)"

definition upper :: "string \<Rightarrow> string" where
  "upper s = map upper_char s"

text \<open>A literal character of a pattern under \<open>re.IGNORECASE\<close>.\<close>

definition ci_eq :: "char \<Rightarrow> char \<Rightarrow> bool" where
  "ci_eq p c = (upper_char c = upper_char p)"

text \<open>The slice \<open>xs[-4:]\<close>: the last four elements, or all of them when there are fewer.\<close>

definition last4 :: "'a list \<Rightarrow> 'a list" where
  "last4 xs = drop (length xs - 4) xs"

section \<open>The ID-suffix heuristic\<close>

text \<open>
  The pattern \<open>[STFG]\d{7}[A-Z]\<close> under \<open>re.IGNORECASE\<close>, tried at the start of
  a string: the nine matched characters, or \<open>None\<close>.
\<close>

definition is_stfg :: "char \<Rightarrow> bool" where
  "is_stfg c = (ci_eq CHR ''S'' c \<or> ci_eq CHR ''T'' c \<or> ci_eq CHR ''F'' c \<or> ci_eq CHR ''G'' c)"

definition match_nric :: "string \<Rightarrow> string option" where
  "match_nric s =
     (if 9 \<le> length s \<and> is_stfg (s ! 0) \<and> list_all is_digit (take 7 (drop 1 s))
         \<and> is_letter (s ! 8)
      then Some (take 9 s) else None)"

text \<open>
  \<open>re.findall(nric_pattern, text, re.IGNORECASE)\<close>: the scan tries the pattern at
  each position from the left; after a match it continues behind the match.
\<close>

fun findall_nric :: "string \<Rightarrow> string list" where
  "findall_nric [] = []"
| "findall_nric (c # cs) =
     (case match_nric (c # cs) of
        Some m \<Rightarrow> m # findall_nric (drop 8 cs)
      | None \<Rightarrow> findall_nric cs)"

text \<open>\<open>re.findall(r'\d', s)\<close>: each digit of \<open>s\<close> as a one-character string.\<close>

definition findall_digit :: "string \<Rightarrow> string list" where
  "findall_digit s = map (\<lambda>c. [c]) (filter is_digit s)"

text \<open>
  \<open>re.findall(r'\d{7,}', text)\<close>: the quantifier is greedy, so a match is a whole
  run of digits from the position where it is tried, if the run has seven or more.
\<close>

function findall_digit_runs :: "string \<Rightarrow> string list" where
  "findall_digit_runs [] = []"
| "findall_digit_runs (c # cs) =
     (if 7 \<le> length (takeWhile is_digit (c # cs))
      then takeWhile is_digit (c # cs) # findall_digit_runs (dropWhile is_digit (c # cs))
      else findall_digit_runs cs)"
  by pat_completeness auto
termination
proof (relation "measure length")
  show "wf (measure length)" by simp
next
  fix c :: char and cs :: string
  assume "7 \<le> length (takeWhile is_digit (c # cs))"
  then have "is_digit c" by (auto split: if_splits)
  then have "length (dropWhile is_digit (c # cs)) \<le> length cs"
    by (simp add: length_dropWhile_le)
  then show "(dropWhile is_digit (c # cs), c # cs) \<in> measure length" by simp
next
  fix c :: char and cs :: string
  show "(cs, c # cs) \<in> measure length" by simp
qed

text \<open>Exceptions of the interpreter that the heuristics could raise.\<close>

datatype py_error = IndexError

text \<open>\<open>xs[0]\<close> raises \<open>IndexError\<close> on an empty list.\<close>

definition item0 :: "'a list \<Rightarrow> py_error + 'a" where
  "item0 xs = (case xs of [] \<Rightarrow> Inl IndexError | x # _ \<Rightarrow> Inr x)"

definition extract_nric_last_4 :: "string \<Rightarrow> py_error + string" where
  "extract_nric_last_4 text =
     (if text = [] then Inr ''Not detected''
      else
        let matches = findall_nric text;
            fallback =
              (let digit_sequences = findall_digit_runs text in
               if digit_sequences \<noteq> [] then
                 (case item0 digit_sequences of
                    Inl e \<Rightarrow> Inl e
                  | Inr run \<Rightarrow> Inr (last4 run))
               else Inr ''Not detected'')
        in if matches \<noteq> [] then
             (case item0 matches of
                Inl e \<Rightarrow> Inl e
              | Inr m \<Rightarrow>
                  let full_nric = upper m;
                      digits = findall_digit full_nric
                  in if 4 \<le> length digits then Inr (concat (last4 digits)) else fallback)
           else fallback)"

section \<open>The name heuristic\<close>

text \<open>\<open>str.strip()\<close>: whitespace removed at both ends.\<close>

definition strip :: "string \<Rightarrow> string" where
  "strip s = rev (dropWhile is_space (rev (dropWhile is_space s)))"

text \<open>
  The pattern \<open>(?:NAME|Name):\s*([A-Z][A-Za-z\s]+)\<close> under \<open>re.IGNORECASE\<close>, tried
  at the start of a string. First the label \<open>(?:NAME|Name):\<close>: both alternatives
  accept the same four letters in either case; the result is the text behind the
  colon.
\<close>

fun match_label :: "string \<Rightarrow> string option" where
  "match_label (n # a # m # e # colon # rest) =
     (if ci_eq CHR ''N'' n \<and> ci_eq CHR ''A'' a \<and> ci_eq CHR ''M'' m \<and> ci_eq CHR ''E'' e
         \<and> colon = CHR '':''
      then Some rest else None)"
| "match_label _ = None"

text \<open>
  Then \<open>\s*([A-Z][A-Za-z\s]+)\<close>; the result is group 1. \<open>\s*\<close> takes all the
  whitespace there is (giving some back leaves a whitespace character where a
  letter is required), and the final class takes the longest run, which must not
  be empty.
\<close>

definition match_name :: "string \<Rightarrow> string option" where
  "match_name s =
     (case match_label s of
        None \<Rightarrow> None
      | Some rest \<Rightarrow>
          (case dropWhile is_space rest of
             [] \<Rightarrow> None
           | c # cs \<Rightarrow>
               if is_letter c \<and> takeWhile is_letter_or_space cs \<noteq> []
               then Some (c # takeWhile is_letter_or_space cs) else None))"

text \<open>\<open>re.search\<close>: the match at the leftmost position that has one.\<close>

fun search_name :: "string \<Rightarrow> string option" where
  "search_name [] = None"
| "search_name (c # cs) =
     (case match_name (c # cs) of Some g \<Rightarrow> Some g | None \<Rightarrow> search_name cs)"

text \<open>\<open>text.split()\<close>: the maximal runs of characters that are not whitespace.\<close>

function split_ws :: "string \<Rightarrow> string list" where
  "split_ws s =
     (case dropWhile is_space s of
        [] \<Rightarrow> []
      | c # cs \<Rightarrow>
          (c # takeWhile (\<lambda>x. \<not> is_space x) cs) # split_ws (dropWhile (\<lambda>x. \<not> is_space x) cs))"
  by pat_completeness auto
termination
proof (relation "measure length")
  show "wf (measure length)" by simp
next
  fix s :: string and c :: char and cs :: string
  assume a: "dropWhile is_space s = c # cs"
  have "length (dropWhile (\<lambda>x. \<not> is_space x) cs) \<le> length cs"
    by (rule length_dropWhile_le)
  moreover have "length (c # cs) \<le> length s"
    using length_dropWhile_le [of is_space s] a by simp
  ultimately show "(dropWhile (\<lambda>x. \<not> is_space x) cs, s) \<in> measure length" by simp
qed

declare split_ws.simps [simp del]

text \<open>The condition \<open>w and w[0].isupper() and len(w) > 2\<close> of the comprehension.\<close>

definition keep_word :: "string \<Rightarrow> py_error + bool" where
  "keep_word w =
     (if w = [] then Inr False
      else (case item0 w of
              Inl e \<Rightarrow> Inl e
            | Inr c \<Rightarrow> Inr (isupper c \<and> 2 < length w)))"

text \<open>The comprehension \<open>[w for w in words if ...]\<close>.\<close>

fun capitalized_words :: "string list \<Rightarrow> py_error + string list" where
  "capitalized_words [] = Inr []"
| "capitalized_words (w # ws) =
     (case keep_word w of
        Inl e \<Rightarrow> Inl e
      | Inr b \<Rightarrow>
          (case capitalized_words ws of
             Inl e \<Rightarrow> Inl e
           | Inr r \<Rightarrow> Inr (if b then w # r else r)))"

text \<open>\<open>' '.join(ws)\<close>.\<close>

fun join_space :: "string list \<Rightarrow> string" where
  "join_space [] = []"
| "join_space [w] = w"
| "join_space (w # v # ws) = w @ '' '' @ join_space (v # ws)"

text \<open>The part of \<open>extract_name\<close> behind the label search.\<close>

definition name_fallback :: "string \<Rightarrow> py_error + string" where
  "name_fallback text =
     (let words = split_ws text in
      case capitalized_words words of
        Inl e \<Rightarrow> Inl e
      | Inr capitalized \<Rightarrow>
          if capitalized \<noteq> [] then Inr (join_space (take 3 capitalized))
          else Inr ''Not detected'')"

definition extract_name :: "string \<Rightarrow> py_error + string" where
  "extract_name text =
     (if text = [] then Inr ''Not detected''
      else (case search_name text of
              Some g \<Rightarrow> Inr (strip g)
            | None \<Rightarrow> name_fallback text))"

section \<open>The request handler\<close>

text \<open>
  The collaborators of the handler: the image decoder and the OCR engine, each
  returning its result or the text of the exception it raises, and the clock, which
  gives the formatted Singapore time.
\<close>

record 'img collaborators =
  Image_open :: "string \<Rightarrow> string + 'img"
  image_to_string :: "'img \<Rightarrow> string + string"
  timestamp_now :: string

text \<open>\<open>request.files\<close>: the uploaded files by field name.\<close>

record request =
  files :: "(string \<times> string) list"

datatype json = JBool bool | JStr string

record response =
  status :: nat
  body :: "(string \<times> json) list"

text \<open>The calls a request makes, in order.\<close>

datatype call = Decode | Ocr | Extract_name | Extract_nric | Clock

text \<open>\<open>str(e)\<close> of an exception raised inside the heuristics.\<close>

fun str_error :: "py_error \<Rightarrow> string" where
  "str_error IndexError = ''list index out of range''"

text \<open>The \<open>except\<close> clause: \<open>jsonify({'error': str(e)}), 500\<close>.\<close>

definition error_500 :: "string \<Rightarrow> response" where
  "error_500 msg = \<lparr>status = 500, body = [(''error'', JStr msg)]\<rparr>"

text \<open>
  The handler of \<open>POST /verify\<close>. The test \<open>'image' not in request.files\<close> comes
  first; \<open>image_file.read()\<close> and \<open>Image.open\<close> are the decoding step,
  \<open>pytesseract.image_to_string\<close> the recognition step. An exception of either, or of
  a heuristic, reaches the \<open>except\<close> clause. \<open>jsonify\<close> without a status is a 200
  response. The second component lists the calls made while the request was served.
\<close>

definition verify_nric :: "'img collaborators \<Rightarrow> request \<Rightarrow> response \<times> call list" where
  "verify_nric env req =
     (case map_of (files req) ''image'' of
        None \<Rightarrow> (\<lparr>status = 400, body = [(''error'', JStr ''No image provided'')]\<rparr>, [])
      | Some image_data \<Rightarrow>
          (case Image_open env image_data of
             Inl e \<Rightarrow> (error_500 e, [Decode])
           | Inr img \<Rightarrow>
               (case image_to_string env img of
                  Inl e \<Rightarrow> (error_500 e, [Decode, Ocr])
                | Inr ocr_text \<Rightarrow>
                    (case extract_name ocr_text of
                       Inl e \<Rightarrow> (error_500 (str_error e), [Decode, Ocr, Extract_name])
                     | Inr name \<Rightarrow>
                         (case extract_nric_last_4 ocr_text of
                            Inl e \<Rightarrow>
                              (error_500 (str_error e),
                               [Decode, Ocr, Extract_name, Extract_nric])
                          | Inr nric_last_4 \<Rightarrow>
                              (\<lparr>status = 200,
                                body = [(''success'', JBool True),
                                        (''ocr_text'', JStr ocr_text),
                                        (''name'', JStr name),
                                        (''nric_last_4'', JStr nric_last_4),
                                        (''timestamp'', JStr (timestamp_now env))]\<rparr>,
                               [Decode, Ocr, Extract_name, Extract_nric, Clock]))))))"

text \<open>Whether a string holds a full ID: a match of the ID pattern at some position.\<close>

definition contains_nric :: "string \<Rightarrow> bool" where
  "contains_nric s = (findall_nric s \<noteq> [])"

fun field_has_nric :: "json \<Rightarrow> bool" where
  "field_has_nric (JStr s) = contains_nric s"
| "field_has_nric (JBool _) = False"

fun any_field_has_nric :: "(string \<times> json) list \<Rightarrow> bool" where
  "any_field_has_nric [] = False"
| "any_field_has_nric ((k, v) # kvs) = (field_has_nric v \<or> any_field_has_nric kvs)"

section \<open>Facts about the character classes and the ID pattern\<close>

lemma code_upper_char:
  "code (upper_char c) = (if is_ascii_lower c then code c - 32 else code c)"
  by (auto simp: upper_char_def is_ascii_lower_def code_def)

lemma upper_char_digit: "is_digit c \<Longrightarrow> upper_char c = c"
  by (simp add: upper_char_def is_digit_def is_ascii_lower_def)

lemma is_digit_upper_char: "is_digit (upper_char c) = is_digit c"
  by (auto simp: is_digit_def code_upper_char is_ascii_lower_def)

lemma letter_not_digit: "is_letter c \<Longrightarrow> \<not> is_digit c"
  by (auto simp: is_letter_def is_digit_def is_ascii_upper_def is_ascii_lower_def)

lemma letter_not_space: "is_letter c \<Longrightarrow> \<not> is_space c"
  by (auto simp: is_letter_def is_space_def is_ascii_upper_def is_ascii_lower_def)

lemma stfg_is_letter: "is_stfg c \<Longrightarrow> is_letter c"
proof -
  assume "is_stfg c"
  then have "code (upper_char c) = 83 \<or> code (upper_char c) = 84
      \<or> code (upper_char c) = 70 \<or> code (upper_char c) = 71"
    unfolding is_stfg_def ci_eq_def
    by (elim disjE) (simp_all add: upper_char_def is_ascii_lower_def code_def)
  then show "is_letter c"
    by (auto simp: code_upper_char is_letter_def is_ascii_upper_def is_ascii_lower_def
        split: if_splits)
qed

lemma match_nric_Some:
  assumes "match_nric s = Some m"
  shows "m = take 9 s" and "9 \<le> length s" and "is_stfg (s ! 0)"
    and "list_all is_digit (take 7 (drop 1 s))" and "is_letter (s ! 8)"
  using assms by (auto simp: match_nric_def split: if_splits)

lemma match_nric_shape:
  assumes "match_nric s = Some m"
  shows "\<exists>p ds q. m = p # ds @ [q] \<and> is_stfg p \<and> length ds = 7 \<and> list_all is_digit ds
            \<and> is_letter q \<and> ds = take 7 (drop 1 s)"
proof -
  note f = match_nric_Some [OF assms]
  have len: "length m = 9" using f(1,2) by simp
  have m0: "m ! 0 = s ! 0" and m8: "m ! 8 = s ! 8" using f(1,2) by simp_all
  have mid: "take 7 (drop 1 m) = take 7 (drop 1 s)"
    using f(1) by (simp add: drop_take)
  have "m = take 1 m @ take 7 (drop 1 m) @ drop 8 m"
    using append_take_drop_id [of 1 m] append_take_drop_id [of 7 "drop 1 m"] by simp
  moreover have "take 1 m = [m ! 0]" using len by (cases m) auto
  moreover have "drop 8 m = [m ! 8]"
    using len Cons_nth_drop_Suc [of 8 m] by simp
  ultimately have "m = (s ! 0) # take 7 (drop 1 s) @ [s ! 8]"
    using m0 m8 mid by simp
  moreover have "length (take 7 (drop 1 s)) = 7" using f(2) by simp
  ultimately show ?thesis using f(3,4,5) by blast
qed

lemma digits_of_match:
  assumes "match_nric s = Some m"
  shows "filter is_digit (upper m) = take 7 (drop 1 s)"
proof -
  obtain p ds q where m: "m = p # ds @ [q]" and p: "is_stfg p" and ds: "list_all is_digit ds"
    and q: "is_letter q" and eq: "ds = take 7 (drop 1 s)"
    using match_nric_shape [OF assms] by blast
  have "\<not> is_digit p" using p stfg_is_letter letter_not_digit by blast
  moreover have "\<not> is_digit q" using q letter_not_digit by blast
  moreover have "filter is_digit (map upper_char ds) = ds"
    using ds by (induction ds) (simp_all add: upper_char_digit)
  ultimately show ?thesis
    unfolding upper_def m using eq by (simp add: is_digit_upper_char)
qed

lemma findall_nric_first:
  "match_nric (drop i text) = Some m \<Longrightarrow> \<forall>j<i. match_nric (drop j text) = None
     \<Longrightarrow> \<exists>ms. findall_nric text = m # ms"
proof (induction "text" arbitrary: i)
  case Nil
  then show ?case by (simp add: match_nric_def)
next
  case (Cons c cs)
  show ?case
  proof (cases i)
    case 0
    with Cons.prems show ?thesis by simp
  next
    case (Suc k)
    have "match_nric (c # cs) = None" using Cons.prems(2) Suc by force
    moreover have "match_nric (drop k cs) = Some m" using Cons.prems(1) Suc by simp
    moreover have "\<forall>j<k. match_nric (drop j cs) = None"
    proof (intro allI impI)
      fix j assume "j < k"
      then have "Suc j < i" using Suc by simp
      then show "match_nric (drop j cs) = None" using Cons.prems(2) by force
    qed
    ultimately show ?thesis using Cons.IH by simp
  qed
qed

lemma findall_nric_Nil_iff:
  "findall_nric text = [] \<longleftrightarrow> (\<forall>i. match_nric (drop i text) = None)"
proof (induction "text")
  case Nil
  show ?case by (simp add: match_nric_def)
next
  case (Cons c cs)
  show ?case
  proof
    assume a: "findall_nric (c # cs) = []"
    then have n: "match_nric (c # cs) = None" by (simp split: option.splits)
    with a have "findall_nric cs = []" by simp
    then have r: "\<forall>i. match_nric (drop i cs) = None" using Cons.IH by simp
    show "\<forall>i. match_nric (drop i (c # cs)) = None"
    proof
      fix i show "match_nric (drop i (c # cs)) = None"
        using n r by (cases i) simp_all
    qed
  next
    assume a: "\<forall>i. match_nric (drop i (c # cs)) = None"
    have n: "match_nric (c # cs) = None" using a [rule_format, of 0] by simp
    have "\<forall>i. match_nric (drop i cs) = None"
    proof
      fix i show "match_nric (drop i cs) = None" using a [rule_format, of "Suc i"] by simp
    qed
    then have "findall_nric cs = []" using Cons.IH by simp
    with n show "findall_nric (c # cs) = []" by simp
  qed
qed

lemma findall_nric_hd_match:
  "findall_nric text = m # ms \<Longrightarrow> \<exists>i. match_nric (drop i text) = Some m"
proof (induction "text")
  case Nil
  then show ?case by simp
next
  case (Cons c cs)
  show ?case
  proof (cases "match_nric (c # cs)")
    case None
    with Cons.prems have "findall_nric cs = m # ms" by simp
    then obtain i where "match_nric (drop i cs) = Some m" using Cons.IH by blast
    then have "match_nric (drop (Suc i) (c # cs)) = Some m" by simp
    then show ?thesis by blast
  next
    case (Some a)
    with Cons.prems have "a = m" by simp
    with Some have "match_nric (drop 0 (c # cs)) = Some m" by simp
    then show ?thesis by blast
  qed
qed

lemma last4_seven: "length ds = 7 \<Longrightarrow> concat (last4 (map (\<lambda>c. [c]) ds)) = drop 3 ds"
proof -
  have "concat (map (\<lambda>c. [c]) xs) = xs" for xs :: "'a list" by (induction xs) simp_all
  then show "length ds = 7 \<Longrightarrow> concat (last4 (map (\<lambda>c. [c]) ds)) = drop 3 ds"
    by (simp add: last4_def drop_map)
qed

lemma extract_primary:
  assumes "findall_nric text = m # ms"
  shows "length (findall_digit (upper m)) = 7"
    and "extract_nric_last_4 text = Inr (concat (last4 (findall_digit (upper m))))"
    and "\<exists>i. match_nric (drop i text) = Some m
           \<and> concat (last4 (findall_digit (upper m))) = take 4 (drop (i + 4) text)"
proof -
  obtain i where i: "match_nric (drop i text) = Some m"
    using findall_nric_hd_match [OF assms] by blast
  have d: "filter is_digit (upper m) = take 7 (drop 1 (drop i text))"
    by (rule digits_of_match [OF i])
  have len9: "9 \<le> length (drop i text)" by (rule match_nric_Some(2) [OF i])
  then have l7: "length (take 7 (drop 1 (drop i text))) = 7" by simp
  show c1: "length (findall_digit (upper m)) = 7"
    unfolding findall_digit_def using d l7 by simp
  have ne: "text \<noteq> []" using assms by auto
  show "extract_nric_last_4 text = Inr (concat (last4 (findall_digit (upper m))))"
    using c1 ne assms by (simp add: extract_nric_last_4_def item0_def Let_def)
  have "concat (last4 (findall_digit (upper m))) = drop 3 (take 7 (drop 1 (drop i text)))"
    unfolding findall_digit_def d using l7 by (rule last4_seven)
  also have "\<dots> = take 4 (drop (i + 4) text)"
    by (simp add: drop_take add.commute)
  finally show "\<exists>i. match_nric (drop i text) = Some m
           \<and> concat (last4 (findall_digit (upper m))) = take 4 (drop (i + 4) text)"
    using i by blast
qed

section \<open>Facts about the digit runs and the result of the ID-suffix heuristic\<close>

lemma all_less_list_all: "(\<forall>j<i. P j) \<longleftrightarrow> list_all P [0..<i]"
  by (auto simp: list_all_iff)

lemma findall_digit_runs_first:
  "7 \<le> length (takeWhile is_digit (drop i text))
     \<Longrightarrow> \<forall>j<i. length (takeWhile is_digit (drop j text)) < 7
     \<Longrightarrow> \<exists>rs. findall_digit_runs text = takeWhile is_digit (drop i text) # rs"
proof (induction "text" arbitrary: i)
  case Nil
  then show ?case by simp
next
  case (Cons c cs)
  show ?case
  proof (cases i)
    case 0
    with Cons.prems(1) show ?thesis by simp
  next
    case (Suc k)
    have "length (takeWhile is_digit (drop 0 (c # cs))) < 7"
      using Cons.prems(2) Suc by blast
    then have "\<not> 7 \<le> length (takeWhile is_digit (c # cs))" by simp
    then have e: "findall_digit_runs (c # cs) = findall_digit_runs cs" by simp
    have "7 \<le> length (takeWhile is_digit (drop k cs))" using Cons.prems(1) Suc by simp
    moreover have "\<forall>j<k. length (takeWhile is_digit (drop j cs)) < 7"
    proof (intro allI impI)
      fix j assume "j < k"
      then have "Suc j < i" using Suc by simp
      then have "length (takeWhile is_digit (drop (Suc j) (c # cs))) < 7"
        using Cons.prems(2) by blast
      then show "length (takeWhile is_digit (drop j cs)) < 7" by simp
    qed
    ultimately show ?thesis using Cons.IH e Suc by simp
  qed
qed

lemma findall_digit_runs_Nil_iff:
  "findall_digit_runs text = [] \<longleftrightarrow> (\<forall>i. length (takeWhile is_digit (drop i text)) < 7)"
proof (induction "text")
  case Nil
  show ?case by simp
next
  case (Cons c cs)
  show ?case
  proof
    assume a: "findall_digit_runs (c # cs) = []"
    then have n: "\<not> 7 \<le> length (takeWhile is_digit (c # cs))"
      by (auto split: if_splits)
    with a have "findall_digit_runs cs = []" by simp
    then have r: "\<forall>i. length (takeWhile is_digit (drop i cs)) < 7" using Cons.IH by simp
    show "\<forall>i. length (takeWhile is_digit (drop i (c # cs))) < 7"
    proof
      fix i show "length (takeWhile is_digit (drop i (c # cs))) < 7"
        using n r by (cases i) simp_all
    qed
  next
    assume a: "\<forall>i. length (takeWhile is_digit (drop i (c # cs))) < 7"
    have "length (takeWhile is_digit (drop 0 (c # cs))) < 7" using a by blast
    then have n: "\<not> 7 \<le> length (takeWhile is_digit (c # cs))" by simp
    have "\<forall>i. length (takeWhile is_digit (drop i cs)) < 7"
    proof
      fix i
      have "length (takeWhile is_digit (drop (Suc i) (c # cs))) < 7" using a by blast
      then show "length (takeWhile is_digit (drop i cs)) < 7" by simp
    qed
    then have "findall_digit_runs cs = []" using Cons.IH by simp
    with n show "findall_digit_runs (c # cs) = []" by simp
  qed
qed

lemma findall_digit_runs_hd:
  "findall_digit_runs text = r # rs \<Longrightarrow> 7 \<le> length r \<and> list_all is_digit r"
proof (induction "text")
  case Nil
  then show ?case by simp
next
  case (Cons c cs)
  show ?case
  proof (cases "7 \<le> length (takeWhile is_digit (c # cs))")
    case True
    with Cons.prems have "r = takeWhile is_digit (c # cs)" by simp
    moreover have "list_all is_digit (takeWhile is_digit (c # cs))"
      unfolding list_all_iff using set_takeWhileD by fastforce
    ultimately show ?thesis using True by simp
  next
    case False
    with Cons.prems have "findall_digit_runs cs = r # rs" by simp
    then show ?thesis using Cons.IH by simp
  qed
qed

lemma extract_fallback:
  assumes "findall_nric text = []"
  shows "extract_nric_last_4 text =
           (case findall_digit_runs text of [] \<Rightarrow> Inr ''Not detected'' | r # _ \<Rightarrow> Inr (last4 r))"
proof (cases "text = []")
  case True
  then show ?thesis by (simp add: extract_nric_last_4_def)
next
  case False
  then show ?thesis using assms
    by (simp add: extract_nric_last_4_def item0_def Let_def split: list.splits)
qed

lemma last4_digits:
  assumes "4 \<le> length r" and "list_all is_digit r"
  shows "length (last4 r) = 4" and "list_all is_digit (last4 r)"
proof -
  show "length (last4 r) = 4" using assms(1) by (simp add: last4_def)
  have "set (last4 r) \<subseteq> set r" unfolding last4_def by (rule set_drop_subset)
  then show "list_all is_digit (last4 r)" using assms(2) by (auto simp: list_all_iff)
qed

lemma extract_nric_last_4_cases:
  "extract_nric_last_4 text = Inr ''Not detected''
      \<or> (\<exists>s. extract_nric_last_4 text = Inr s \<and> length s = 4 \<and> list_all is_digit s)"
proof (cases "findall_nric text")
  case Nil
  show ?thesis
  proof (cases "findall_digit_runs text")
    case Nil
    then show ?thesis using extract_fallback [OF \<open>findall_nric text = []\<close>] by simp
  next
    case (Cons r rs)
    then have "7 \<le> length r \<and> list_all is_digit r" by (rule findall_digit_runs_hd)
    then have "length (last4 r) = 4 \<and> list_all is_digit (last4 r)"
      using last4_digits [of r] by simp
    then show ?thesis using extract_fallback [OF \<open>findall_nric text = []\<close>] Cons by simp
  qed
next
  case (Cons a as)
  obtain i where i: "match_nric (drop i text) = Some a"
    and e: "concat (last4 (findall_digit (upper a))) = take 4 (drop (i + 4) text)"
    using extract_primary(3) [OF Cons] by blast
  have l9: "9 \<le> length (drop i text)" by (rule match_nric_Some(2) [OF i])
  have d: "list_all is_digit (take 7 (drop 1 (drop i text)))"
    by (rule match_nric_Some(4) [OF i])
  have "set (take 4 (drop (i + 4) text)) \<subseteq> set (take 7 (drop 1 (drop i text)))"
  proof -
    have "take 4 (drop (i + 4) text) = drop 3 (take 7 (drop 1 (drop i text)))"
      by (simp add: drop_take add.commute)
    then show ?thesis using set_drop_subset by metis
  qed
  then have "list_all is_digit (take 4 (drop (i + 4) text))"
    using d by (auto simp: list_all_iff)
  moreover have "length (take 4 (drop (i + 4) text)) = 4" using l9 by simp
  ultimately show ?thesis using extract_primary(2) [OF Cons] e by simp
qed

lemma extract_nric_last_4_total: "\<exists>s. extract_nric_last_4 text = Inr s"
proof (cases "findall_nric text")
  case Nil
  then show ?thesis using extract_fallback [of "text"] by (simp split: list.splits)
next
  case (Cons m ms)
  then show ?thesis using extract_primary(2) by blast
qed

lemma contains_nric_length: "contains_nric s \<Longrightarrow> 9 \<le> length s"
proof -
  assume "contains_nric s"
  then obtain m ms where "findall_nric s = m # ms"
    by (auto simp: contains_nric_def neq_Nil_conv)
  then obtain i where "match_nric (drop i s) = Some m" using findall_nric_hd_match by blast
  then have "9 \<le> length (drop i s)" by (rule match_nric_Some(2))
  then show "9 \<le> length s" by simp
qed

lemma nric_last_4_no_full_id:
  assumes "extract_nric_last_4 text = Inr s"
  shows "\<not> contains_nric s"
    and "s = ''Not detected'' \<or> (length s = 4 \<and> list_all is_digit s)"
proof -
  show c: "s = ''Not detected'' \<or> (length s = 4 \<and> list_all is_digit s)"
    using extract_nric_last_4_cases [of "text"] assms by auto
  have "\<not> contains_nric ''Not detected''" by code_simp
  then show "\<not> contains_nric s" using c contains_nric_length [of s] by auto
qed

section \<open>Facts about the name heuristic\<close>

lemma keep_word_eq: "keep_word w = Inr (w \<noteq> [] \<and> isupper (hd w) \<and> 2 < length w)"
  by (cases w) (simp_all add: keep_word_def item0_def)

lemma capitalized_words_eq:
  "capitalized_words ws = Inr (filter (\<lambda>w. w \<noteq> [] \<and> isupper (hd w) \<and> 2 < length w) ws)"
  by (induction ws) (simp_all add: keep_word_eq)

lemma name_fallback_eq:
  "name_fallback text =
     Inr (let kept = filter (\<lambda>w. w \<noteq> [] \<and> isupper (hd w) \<and> 2 < length w) (split_ws text)
          in if kept = [] then ''Not detected'' else join_space (take 3 kept))"
  by (simp add: name_fallback_def capitalized_words_eq Let_def)

lemma split_ws_Nil: "split_ws [] = []"
  by (simp add: split_ws.simps)

lemma extract_name_no_label:
  "search_name text = None \<Longrightarrow> extract_name text = name_fallback text"
  by (cases "text = []") (simp_all add: extract_name_def name_fallback_eq split_ws_Nil)

lemma extract_name_total: "\<exists>s. extract_name text = Inr s"
  by (cases "search_name text") (simp_all add: extract_name_def name_fallback_eq)

lemma split_ws_tokens:
  "w \<in> set (split_ws s) \<Longrightarrow> w \<noteq> [] \<and> list_all (\<lambda>c. \<not> is_space c) w"
proof (induction s rule: split_ws.induct)
  case (1 s)
  show ?case
  proof (cases "dropWhile is_space s")
    case Nil
    then have "split_ws s = []" by (subst split_ws.simps) (simp only: list.case)
    with "1.prems" show ?thesis by simp
  next
    case (Cons c cs)
    then have e: "split_ws s = (c # takeWhile (\<lambda>x. \<not> is_space x) cs)
                     # split_ws (dropWhile (\<lambda>x. \<not> is_space x) cs)"
      by (subst split_ws.simps) (simp only: list.case)
    have c: "\<not> is_space c" using hd_dropWhile [of is_space s] Cons by simp
    have t: "list_all (\<lambda>c. \<not> is_space c) (takeWhile (\<lambda>x. \<not> is_space x) cs)"
      unfolding list_all_iff using set_takeWhileD by fastforce
    from "1.prems" e
    consider "w = c # takeWhile (\<lambda>x. \<not> is_space x) cs"
      | "w \<in> set (split_ws (dropWhile (\<lambda>x. \<not> is_space x) cs))" by auto
    then show ?thesis
    proof cases
      case 1
      then show ?thesis using c t by simp
    next
      case 2
      then show ?thesis using "1.IH" [OF Cons] by simp
    qed
  qed
qed

lemma filter_takeWhile_space: "filter (\<lambda>c. \<not> is_space c) (takeWhile is_space s) = []"
  by (induction s) simp_all

lemma filter_takeWhile_nonspace:
  "filter (\<lambda>c. \<not> is_space c) (takeWhile (\<lambda>x. \<not> is_space x) s)
     = takeWhile (\<lambda>x. \<not> is_space x) s"
  by (induction s) simp_all

lemma split_ws_concat: "concat (split_ws s) = filter (\<lambda>c. \<not> is_space c) s"
proof (induction s rule: split_ws.induct)
  case (1 s)
  have s: "filter (\<lambda>c. \<not> is_space c) s
             = filter (\<lambda>c. \<not> is_space c) (dropWhile is_space s)"
    using takeWhile_dropWhile_id [of is_space s] filter_append
      [of "\<lambda>c. \<not> is_space c" "takeWhile is_space s" "dropWhile is_space s"]
    by (simp add: filter_takeWhile_space)
  show ?case
  proof (cases "dropWhile is_space s")
    case Nil
    then have "split_ws s = []" by (subst split_ws.simps) (simp only: list.case)
    then show ?thesis using s Nil by simp
  next
    case (Cons c cs)
    then have e: "split_ws s = (c # takeWhile (\<lambda>x. \<not> is_space x) cs)
                     # split_ws (dropWhile (\<lambda>x. \<not> is_space x) cs)"
      by (subst split_ws.simps) (simp only: list.case)
    have c: "\<not> is_space c" using hd_dropWhile [of is_space s] Cons by simp
    have "filter (\<lambda>c. \<not> is_space c) cs
            = filter (\<lambda>c. \<not> is_space c) (takeWhile (\<lambda>x. \<not> is_space x) cs)
              @ filter (\<lambda>c. \<not> is_space c) (dropWhile (\<lambda>x. \<not> is_space x) cs)"
      using takeWhile_dropWhile_id [of "\<lambda>x. \<not> is_space x" cs] filter_append
        [of "\<lambda>c. \<not> is_space c" "takeWhile (\<lambda>x. \<not> is_space x) cs"
          "dropWhile (\<lambda>x. \<not> is_space x) cs"]
      by simp
    then have "filter (\<lambda>c. \<not> is_space c) cs
            = takeWhile (\<lambda>x. \<not> is_space x) cs
              @ concat (split_ws (dropWhile (\<lambda>x. \<not> is_space x) cs))"
      using "1.IH" [OF Cons] by (simp add: filter_takeWhile_nonspace)
    then show ?thesis using s e c Cons by simp
  qed
qed

lemma no_upper_no_capitalized:
  assumes "list_all (\<lambda>c. \<not> isupper c) text"
  shows "filter (\<lambda>w. w \<noteq> [] \<and> isupper (hd w) \<and> 2 < length w) (split_ws text) = []"
proof -
  have "\<not> (w \<noteq> [] \<and> isupper (hd w) \<and> 2 < length w)" if w: "w \<in> set (split_ws text)" for w
  proof
    assume a: "w \<noteq> [] \<and> isupper (hd w) \<and> 2 < length w"
    then have "hd w \<in> set w" by simp
    then have "hd w \<in> set (concat (split_ws text))" using w by auto
    then have "hd w \<in> set text" unfolding split_ws_concat by simp
    then show False using assms a by (simp add: list_all_iff)
  qed
  then show ?thesis by (simp add: filter_empty_conv)
qed

lemma match_name_Some:
  assumes "match_name s = Some g"
  shows "\<exists>c cs. g = c # cs \<and> is_letter c \<and> cs \<noteq> [] \<and> list_all is_letter_or_space cs"
proof -
  obtain rest where "match_label s = Some rest"
    using assms by (auto simp: match_name_def split: option.splits)
  then obtain c cs where g: "g = c # takeWhile is_letter_or_space cs" and c: "is_letter c"
    and ne: "takeWhile is_letter_or_space cs \<noteq> []"
    using assms by (auto simp: match_name_def split: list.splits if_splits)
  have "list_all is_letter_or_space (takeWhile is_letter_or_space cs)"
    unfolding list_all_iff using set_takeWhileD by fastforce
  then show ?thesis using g c ne by blast
qed

lemma search_name_Some:
  "search_name text = Some g \<Longrightarrow> \<exists>i. match_name (drop i text) = Some g"
proof (induction "text")
  case Nil
  then show ?case by simp
next
  case (Cons c cs)
  show ?case
  proof (cases "match_name (c # cs)")
    case None
    with Cons.prems have "search_name cs = Some g" by simp
    then obtain i where "match_name (drop i cs) = Some g" using Cons.IH by blast
    then have "match_name (drop (Suc i) (c # cs)) = Some g" by simp
    then show ?thesis by blast
  next
    case (Some a)
    with Cons.prems have "match_name (drop 0 (c # cs)) = Some g" by simp
    then show ?thesis by blast
  qed
qed

lemma search_name_None:
  "\<forall>i. match_name (drop i text) = None \<Longrightarrow> search_name text = None"
proof (induction "text")
  case Nil
  show ?case by simp
next
  case (Cons c cs)
  have "match_name (drop 0 (c # cs)) = None" using Cons.prems by blast
  then have n: "match_name (c # cs) = None" by simp
  have "\<forall>i. match_name (drop i cs) = None"
  proof
    fix i
    have "match_name (drop (Suc i) (c # cs)) = None" using Cons.prems by blast
    then show "match_name (drop i cs) = None" by simp
  qed
  then show ?case using n Cons.IH by simp
qed

lemma strip_letter_first:
  assumes "is_letter c"
  shows "strip (c # cs) = c # rev (dropWhile is_space (rev cs))"
proof -
  have c: "\<not> is_space c" using assms by (rule letter_not_space)
  then have "dropWhile is_space (rev cs @ [c]) = dropWhile is_space (rev cs) @ [c]"
    by (simp add: dropWhile_append3)
  then show ?thesis using c by (simp add: strip_def)
qed

lemma strip_letter_first_last:
  assumes "is_letter c"
  shows "\<not> is_space (last (strip (c # cs)))"
proof (cases "dropWhile is_space (rev cs)")
  case Nil
  then show ?thesis using strip_letter_first [OF assms, of cs] letter_not_space [OF assms]
    by simp
next
  case (Cons d ds)
  then have "\<not> is_space d" using hd_dropWhile [of is_space "rev cs"] by simp
  then show ?thesis using strip_letter_first [OF assms, of cs] Cons by simp
qed

lemma strip_subset: "set (strip s) \<subseteq> set s"
proof -
  have "set (dropWhile is_space (rev (dropWhile is_space s))) \<subseteq> set (rev (dropWhile is_space s))"
    by (rule set_dropWhileD [THEN subsetI])
  moreover have "set (dropWhile is_space s) \<subseteq> set s" by (rule set_dropWhileD [THEN subsetI])
  ultimately show ?thesis by (auto simp: strip_def)
qed

lemma all_drop_list_all:
  "(\<forall>i. P (drop i xs)) \<longleftrightarrow> list_all (\<lambda>i. P (drop i xs)) [0..<Suc (length xs)]"
proof
  assume "\<forall>i. P (drop i xs)"
  then show "list_all (\<lambda>i. P (drop i xs)) [0..<Suc (length xs)]" by (simp add: list_all_iff)
next
  assume a: "list_all (\<lambda>i. P (drop i xs)) [0..<Suc (length xs)]"
  show "\<forall>i. P (drop i xs)"
  proof
    fix i
    show "P (drop i xs)"
    proof (cases "i \<le> length xs")
      case True
      then have "i \<in> set [0..<Suc (length xs)]" by auto
      then show ?thesis using a unfolding list_all_iff by blast
    next
      case False
      then have "drop i xs = drop (length xs) xs" by simp
      moreover have "length xs \<in> set [0..<Suc (length xs)]" by simp
      then have "P (drop (length xs) xs)" using a unfolding list_all_iff by blast
      ultimately show ?thesis by simp
    qed
  qed
qed

section \<open>The ID-suffix heuristic: results\<close>

text \<open>
  Claim C3. When the text has a match of the ID pattern, and \<open>i\<close> is the leftmost
  position where one starts, \<open>extract_nric_last_4\<close> returns the last four of the
  seven digits of that match after uppercasing it, which are the four characters from
  position \<open>i + 4\<close> of the text. Matches further right do not count. In particular
  \<open>S1234567A\<close> gives \<open>4567\<close>, \<open>T9876543B\<close> gives \<open>6543\<close>, and the two on
  successive lines give \<open>4567\<close>.
\<close>

theorem extract_nric_last_4_leftmost_match:
  "(match_nric (drop i text) = Some m \<and> (\<forall>j<i. match_nric (drop j text) = None)
      \<longrightarrow> filter is_digit (upper m) = take 7 (drop (i + 1) text)
        \<and> extract_nric_last_4 text = Inr (last4 (filter is_digit (upper m)))
        \<and> extract_nric_last_4 text = Inr (take 4 (drop (i + 4) text)))
   \<and> extract_nric_last_4 ''S1234567A'' = Inr ''4567''
   \<and> extract_nric_last_4 ''T9876543B'' = Inr ''6543''
   \<and> extract_nric_last_4 ''S1234567A\<newline>T9876543B'' = Inr ''4567''"
proof (intro conjI impI)
  assume a: "match_nric (drop i text) = Some m \<and> (\<forall>j<i. match_nric (drop j text) = None)"
  then obtain ms where f: "findall_nric text = m # ms" using findall_nric_first by blast
  have d: "filter is_digit (upper m) = take 7 (drop 1 (drop i text))"
    using a digits_of_match by blast
  then show d': "filter is_digit (upper m) = take 7 (drop (i + 1) text)" by (simp add: add.commute)
  have l9: "9 \<le> length (drop i text)" using a match_nric_Some(2) by blast
  have "concat (last4 (findall_digit (upper m))) = drop 3 (take 7 (drop 1 (drop i text)))"
    unfolding findall_digit_def d using l9 by (intro last4_seven) simp
  also have "\<dots> = take 4 (drop (i + 4) text)" by (simp add: drop_take add.commute)
  finally have r: "extract_nric_last_4 text = Inr (take 4 (drop (i + 4) text))"
    using extract_primary(2) [OF f] by simp
  then show "extract_nric_last_4 text = Inr (take 4 (drop (i + 4) text))" .
  have "last4 (filter is_digit (upper m)) = drop 3 (take 7 (drop 1 (drop i text)))"
    unfolding d last4_def using l9 by simp
  also have "\<dots> = take 4 (drop (i + 4) text)" by (simp add: drop_take add.commute)
  finally show "extract_nric_last_4 text = Inr (last4 (filter is_digit (upper m)))"
    using r by simp
next
  show "extract_nric_last_4 ''S1234567A'' = Inr ''4567''" by code_simp
  show "extract_nric_last_4 ''T9876543B'' = Inr ''6543''" by code_simp
  show "extract_nric_last_4 ''S1234567A\<newline>T9876543B'' = Inr ''4567''"
    by code_simp
qed

theorem extract_nric_last_4_leftmost_match_witness:
  "match_nric (drop 6 ''NRIC: T9876543B S1234567A'') = Some ''T9876543B''
   \<and> list_all (\<lambda>j. match_nric (drop j ''NRIC: T9876543B S1234567A'') = None) [0..<6]
   \<and> extract_nric_last_4 ''NRIC: T9876543B S1234567A'' = Inr ''6543''"
proof -
  have h1: "match_nric (drop 6 ''NRIC: T9876543B S1234567A'') = Some ''T9876543B''"
    by code_simp
  have h2: "\<forall>j<6. match_nric (drop j ''NRIC: T9876543B S1234567A'') = None"
    unfolding all_less_list_all by code_simp
  have r: "extract_nric_last_4 ''NRIC: T9876543B S1234567A''
             = Inr (take 4 (drop (6 + 4) ''NRIC: T9876543B S1234567A''))"
    using h1 h2
      extract_nric_last_4_leftmost_match [of 6 "''NRIC: T9876543B S1234567A''" "''T9876543B''"]
    by blast
  show ?thesis using h1 h2 r by (simp add: all_less_list_all)
qed

text \<open>
  Claim C4. When the text has no match of the ID pattern at any position, and \<open>i\<close>
  is the leftmost position where a run of seven or more digits starts,
  \<open>extract_nric_last_4\<close> returns the last four characters of that run; when there is
  no such run either, it returns \<open>Not detected\<close>.
\<close>

theorem extract_nric_last_4_digit_run_fallback:
  assumes "\<forall>i. match_nric (drop i text) = None"
  shows "(7 \<le> length (takeWhile is_digit (drop i text))
            \<and> (\<forall>j<i. length (takeWhile is_digit (drop j text)) < 7)
          \<longrightarrow> extract_nric_last_4 text = Inr (last4 (takeWhile is_digit (drop i text))))
       \<and> ((\<forall>k. length (takeWhile is_digit (drop k text)) < 7)
          \<longrightarrow> extract_nric_last_4 text = Inr ''Not detected'')"
proof -
  have n: "findall_nric text = []" using assms findall_nric_Nil_iff by blast
  show ?thesis
  proof (intro conjI impI)
    assume "7 \<le> length (takeWhile is_digit (drop i text))
            \<and> (\<forall>j<i. length (takeWhile is_digit (drop j text)) < 7)"
    then obtain rs where "findall_digit_runs text = takeWhile is_digit (drop i text) # rs"
      using findall_digit_runs_first by blast
    then show "extract_nric_last_4 text = Inr (last4 (takeWhile is_digit (drop i text)))"
      using extract_fallback [OF n] by simp
  next
    assume "\<forall>k. length (takeWhile is_digit (drop k text)) < 7"
    then have "findall_digit_runs text = []" using findall_digit_runs_Nil_iff by blast
    then show "extract_nric_last_4 text = Inr ''Not detected''"
      using extract_fallback [OF n] by simp
  qed
qed

theorem extract_nric_last_4_digit_run_fallback_witness:
  "(\<forall>i. match_nric (drop i ''ID: 1234567'') = None)
   \<and> 7 \<le> length (takeWhile is_digit (drop 4 ''ID: 1234567''))
   \<and> list_all (\<lambda>j. length (takeWhile is_digit (drop j ''ID: 1234567'')) < 7) [0..<4]
   \<and> extract_nric_last_4 ''ID: 1234567'' = Inr ''4567''
   \<and> (\<forall>i. match_nric (drop i ''REPUBLIC 123456'') = None)
   \<and> (\<forall>k. length (takeWhile is_digit (drop k ''REPUBLIC 123456'')) < 7)
   \<and> extract_nric_last_4 ''REPUBLIC 123456'' = Inr ''Not detected''"
proof -
  have a1: "\<forall>i. match_nric (drop i ''ID: 1234567'') = None"
    unfolding findall_nric_Nil_iff [symmetric] by code_simp
  have a2: "7 \<le> length (takeWhile is_digit (drop 4 ''ID: 1234567''))" by code_simp
  have a3: "\<forall>j<4. length (takeWhile is_digit (drop j ''ID: 1234567'')) < 7"
    unfolding all_less_list_all by code_simp
  have a4: "last4 (takeWhile is_digit (drop 4 ''ID: 1234567'')) = ''4567''" by code_simp
  have b1: "\<forall>i. match_nric (drop i ''REPUBLIC 123456'') = None"
    unfolding findall_nric_Nil_iff [symmetric] by code_simp
  have b2: "\<forall>k. length (takeWhile is_digit (drop k ''REPUBLIC 123456'')) < 7"
    unfolding findall_digit_runs_Nil_iff [symmetric] by code_simp
  show ?thesis
    using a1 a2 a3 a4 b1 b2
      extract_nric_last_4_digit_run_fallback [OF a1, of 4]
      extract_nric_last_4_digit_run_fallback [OF b1, of 0]
    by (simp add: all_less_list_all)
qed

text \<open>
  Claim C10. The result of \<open>extract_nric_last_4\<close> is \<open>Not detected\<close> or a string of
  exactly four digits. When the pattern search finds a match, the uppercased first
  match has exactly seven digits, so the guard \<open>len(digits) >= 4\<close> holds and the
  result comes from the primary branch, not from the digit-run fallback.
\<close>

theorem extract_nric_last_4_result_shape:
  "(extract_nric_last_4 text = Inr ''Not detected''
      \<or> (\<exists>s. extract_nric_last_4 text = Inr s \<and> length s = 4 \<and> list_all is_digit s))
   \<and> (findall_nric text = m # ms
        \<longrightarrow> length (findall_digit (upper m)) = 7 \<and> 4 \<le> length (findall_digit (upper m))
          \<and> extract_nric_last_4 text = Inr (concat (last4 (findall_digit (upper m)))))"
proof (intro conjI impI)
  show "extract_nric_last_4 text = Inr ''Not detected''
      \<or> (\<exists>s. extract_nric_last_4 text = Inr s \<and> length s = 4 \<and> list_all is_digit s)"
    by (rule extract_nric_last_4_cases)
next
  assume f: "findall_nric text = m # ms"
  show "length (findall_digit (upper m)) = 7" by (rule extract_primary(1) [OF f])
  then show "4 \<le> length (findall_digit (upper m))" by simp
  show "extract_nric_last_4 text = Inr (concat (last4 (findall_digit (upper m))))"
    by (rule extract_primary(2) [OF f])
qed

theorem extract_nric_last_4_result_shape_witness:
  "findall_nric ''s1234567a 7654321'' = [''s1234567a'']
   \<and> length (findall_digit (upper ''s1234567a'')) = 7
   \<and> extract_nric_last_4 ''s1234567a 7654321'' = Inr ''4567''"
proof -
  have f: "findall_nric ''s1234567a 7654321'' = [''s1234567a'']" by code_simp
  have c: "concat (last4 (findall_digit (upper ''s1234567a''))) = ''4567''" by code_simp
  show ?thesis
    using f c extract_nric_last_4_result_shape [of "''s1234567a 7654321''" "''s1234567a''" "[]"]
    by simp
qed

section \<open>The name heuristic: results\<close>

text \<open>
  Claim C2, as stated, fails: the whole pattern is matched under \<open>re.IGNORECASE\<close>,
  so a lowercase letter behind the label starts a capture. In \<open>Name: john\<close> the
  label is followed by a lowercase letter, step 1 yields \<open>john\<close>, the function
  returns it, and the capitalized-token step (which would give \<open>Name:\<close>) is not
  reached.
\<close>

theorem extract_name_lowercase_counterexample:
  "match_label ''Name: john'' = Some '' john''
   \<and> is_ascii_lower (hd (dropWhile is_space '' john''))
   \<and> search_name ''Name: john'' = Some ''john''
   \<and> extract_name ''Name: john'' = Inr ''john''
   \<and> name_fallback ''Name: john'' = Inr ''Name:''
   \<and> \<not> isupper (hd ''john'')"
  by code_simp

text \<open>
  Claim C2, amended. When step 1 succeeds, the returned string is the capture trimmed
  of surrounding whitespace; it begins with an ASCII letter of either case and holds
  only letters and whitespace. When every occurrence of the label (in any case) with
  its colon is followed, after optional whitespace, by a character that is not a
  letter or by the end of the text, step 1 produces no result and the function
  returns the result of the capitalized-token step.
\<close>

theorem extract_name_label_step:
  "(search_name text = Some g
      \<longrightarrow> extract_name text = Inr (strip g) \<and> strip g \<noteq> [] \<and> is_letter (hd (strip g))
        \<and> \<not> is_space (hd (strip g)) \<and> \<not> is_space (last (strip g))
        \<and> list_all is_letter_or_space (strip g))
   \<and> ((\<forall>i rest. match_label (drop i text) = Some rest
          \<longrightarrow> (case dropWhile is_space rest of [] \<Rightarrow> True | c # _ \<Rightarrow> \<not> is_letter c))
      \<longrightarrow> search_name text = None \<and> extract_name text = name_fallback text)"
proof (intro conjI impI)
  assume a: "search_name text = Some g"
  then have ne: "text \<noteq> []" by auto
  show "extract_name text = Inr (strip g)" using a ne by (simp add: extract_name_def)
  obtain i where "match_name (drop i text) = Some g" using search_name_Some [OF a] by blast
  then obtain c cs where g: "g = c # cs" and c: "is_letter c"
    and cs: "list_all is_letter_or_space cs"
    using match_name_Some by blast
  have s: "strip g = c # rev (dropWhile is_space (rev cs))"
    unfolding g by (rule strip_letter_first [OF c])
  show "strip g \<noteq> []" using s by simp
  show "is_letter (hd (strip g))" using s c by simp
  show "\<not> is_space (hd (strip g))" using s c letter_not_space by simp
  show "\<not> is_space (last (strip g))" unfolding g by (rule strip_letter_first_last [OF c])
  have "list_all is_letter_or_space g" using g c cs by (simp add: is_letter_or_space_def)
  then show "list_all is_letter_or_space (strip g)"
    using strip_subset [of g] by (auto simp: list_all_iff)
next
  assume h: "\<forall>i rest. match_label (drop i text) = Some rest
          \<longrightarrow> (case dropWhile is_space rest of [] \<Rightarrow> True | c # _ \<Rightarrow> \<not> is_letter c)"
  have "\<forall>i. match_name (drop i text) = None"
  proof
    fix i
    show "match_name (drop i text) = None"
    proof (cases "match_label (drop i text)")
      case None
      then show ?thesis by (simp add: match_name_def)
    next
      case (Some rest)
      then have r: "case dropWhile is_space rest of [] \<Rightarrow> True | c # _ \<Rightarrow> \<not> is_letter c"
        using h by blast
      show ?thesis
      proof (cases "dropWhile is_space rest")
        case Nil
        show ?thesis by (simp only: match_name_def Some Nil option.case list.case)
      next
        case (Cons c cs)
        then have "\<not> is_letter c" using r by simp
        then show ?thesis by (simp only: match_name_def Some Cons option.case list.case) simp
      qed
    qed
  qed
  then show n: "search_name text = None" by (rule search_name_None)
  show "extract_name text = name_fallback text" by (rule extract_name_no_label [OF n])
qed

theorem extract_name_label_step_witness:
  "search_name ''Reg no name:  mary ann 7'' = Some ''mary ann ''
   \<and> extract_name ''Reg no name:  mary ann 7'' = Inr ''mary ann''
   \<and> match_label ''NAME: 42 Bob Lee'' = Some '' 42 Bob Lee''
   \<and> search_name ''NAME: 42 Bob Lee'' = None
   \<and> extract_name ''NAME: 42 Bob Lee'' = Inr ''NAME: Bob Lee''"
proof -
  have a1: "search_name ''Reg no name:  mary ann 7'' = Some ''mary ann ''" by code_simp
  have a2: "strip ''mary ann '' = ''mary ann''" by code_simp
  have r1: "extract_name ''Reg no name:  mary ann 7'' = Inr (strip ''mary ann '')"
    using extract_name_label_step [of "''Reg no name:  mary ann 7''" "''mary ann ''"] a1
    by blast
  have b0: "match_label ''NAME: 42 Bob Lee'' = Some '' 42 Bob Lee''" by code_simp
  have "\<forall>i. (case match_label (drop i ''NAME: 42 Bob Lee'') of None \<Rightarrow> True
              | Some rest \<Rightarrow> (case dropWhile is_space rest of [] \<Rightarrow> True
                              | c # _ \<Rightarrow> \<not> is_letter c))"
    unfolding all_drop_list_all
      [of "\<lambda>s. case match_label s of None \<Rightarrow> True
              | Some rest \<Rightarrow> (case dropWhile is_space rest of [] \<Rightarrow> True
                              | c # _ \<Rightarrow> \<not> is_letter c)"]
    by code_simp
  then have b1: "\<forall>i rest. match_label (drop i ''NAME: 42 Bob Lee'') = Some rest
          \<longrightarrow> (case dropWhile is_space rest of [] \<Rightarrow> True | c # _ \<Rightarrow> \<not> is_letter c)"
    by (auto split: option.splits)
  have b2: "name_fallback ''NAME: 42 Bob Lee'' = Inr ''NAME: Bob Lee''" by code_simp
  have r2: "search_name ''NAME: 42 Bob Lee'' = None
            \<and> extract_name ''NAME: 42 Bob Lee'' = name_fallback ''NAME: 42 Bob Lee''"
    using extract_name_label_step [of "''NAME: 42 Bob Lee''" "[]"] b1 by blast
  show ?thesis using a1 a2 r1 b0 b2 r2 by simp
qed

text \<open>
  Claim C6. When the label search finds nothing, \<open>extract_name\<close> splits the text
  at whitespace (the tokens are not empty, hold no whitespace, and together are the
  text without its whitespace), keeps the tokens whose first character is uppercase
  and that are longer than two characters, and returns the first three of them joined
  by single spaces, or \<open>Not detected\<close> when none is kept; a text without any
  uppercase character gives \<open>Not detected\<close>.
\<close>

theorem extract_name_capitalized_fallback:
  assumes "search_name text = None"
  shows "extract_name text =
           Inr (let kept = filter (\<lambda>w. w \<noteq> [] \<and> isupper (hd w) \<and> 2 < length w)
                             (split_ws text)
                in if kept = [] then ''Not detected'' else join_space (take 3 kept))
       \<and> list_all (\<lambda>w. w \<noteq> [] \<and> list_all (\<lambda>c. \<not> is_space c) w) (split_ws text)
       \<and> concat (split_ws text) = filter (\<lambda>c. \<not> is_space c) text
       \<and> (list_all (\<lambda>c. \<not> isupper c) text \<longrightarrow> extract_name text = Inr ''Not detected'')"
proof (intro conjI impI)
  show e: "extract_name text =
           Inr (let kept = filter (\<lambda>w. w \<noteq> [] \<and> isupper (hd w) \<and> 2 < length w)
                             (split_ws text)
                in if kept = [] then ''Not detected'' else join_space (take 3 kept))"
    using extract_name_no_label [OF assms] name_fallback_eq by simp
  show "list_all (\<lambda>w. w \<noteq> [] \<and> list_all (\<lambda>c. \<not> is_space c) w) (split_ws text)"
    unfolding list_all_iff [of _ "split_ws text"] using split_ws_tokens by blast
  show "concat (split_ws text) = filter (\<lambda>c. \<not> is_space c) text" by (rule split_ws_concat)
  assume "list_all (\<lambda>c. \<not> isupper c) text"
  then show "extract_name text = Inr ''Not detected''"
    using e no_upper_no_capitalized by simp
qed

theorem extract_name_capitalized_fallback_witness:
  "search_name ''  Abc de  Fgh 12 Ijk Lmn'' = None
   \<and> split_ws ''  Abc de  Fgh 12 Ijk Lmn'' = [''Abc'', ''de'', ''Fgh'', ''12'', ''Ijk'', ''Lmn'']
   \<and> extract_name ''  Abc de  Fgh 12 Ijk Lmn'' = Inr ''Abc Fgh Ijk''
   \<and> search_name ''123 456-789.'' = None
   \<and> list_all (\<lambda>c. \<not> isupper c) ''123 456-789.''
   \<and> extract_name ''123 456-789.'' = Inr ''Not detected''"
proof -
  have a1: "search_name ''  Abc de  Fgh 12 Ijk Lmn'' = None" by code_simp
  have a2: "split_ws ''  Abc de  Fgh 12 Ijk Lmn''
              = [''Abc'', ''de'', ''Fgh'', ''12'', ''Ijk'', ''Lmn'']" by code_simp
  have a3: "(let kept = filter (\<lambda>w. w \<noteq> [] \<and> isupper (hd w) \<and> 2 < length w)
                             [''Abc'', ''de'', ''Fgh'', ''12'', ''Ijk'', ''Lmn'']
                in if kept = [] then ''Not detected'' else join_space (take 3 kept))
             = ''Abc Fgh Ijk''" by code_simp
  have b1: "search_name ''123 456-789.'' = None" by code_simp
  have b2: "list_all (\<lambda>c. \<not> isupper c) ''123 456-789.''" by code_simp
  have r1: "extract_name ''  Abc de  Fgh 12 Ijk Lmn'' = Inr ''Abc Fgh Ijk''"
    using extract_name_capitalized_fallback [OF a1, THEN conjunct1] unfolding a2 a3 .
  have r2: "extract_name ''123 456-789.'' = Inr ''Not detected''"
    using extract_name_capitalized_fallback [OF b1] b2 by blast
  show ?thesis using a1 a2 b1 b2 r1 r2 by (intro conjI)
qed

section \<open>The heuristics never raise\<close>

text \<open>
  Claim C9. On every string both heuristics return a string: no branch of them raises.
  On the empty string both return \<open>Not detected\<close>.
\<close>

theorem heuristics_never_raise:
  "(\<exists>s. extract_name text = Inr s) \<and> (\<exists>s. extract_nric_last_4 text = Inr s)
   \<and> extract_name [] = Inr ''Not detected'' \<and> extract_nric_last_4 [] = Inr ''Not detected''"
  using extract_name_total extract_nric_last_4_total
  by (simp add: extract_name_def extract_nric_last_4_def)

section \<open>The request handler: results\<close>

lemma verify_nric_nric_field:
  assumes "map_of (body (fst (verify_nric env req))) ''nric_last_4'' = Some v"
  shows "\<exists>t s. extract_nric_last_4 t = Inr s \<and> v = JStr s"
  using assms
  by (auto simp: verify_nric_def error_500_def split: option.splits sum.splits)

text \<open>
  Claim C5. When the request has an image field, decoding succeeds and the OCR engine
  yields the text \<open>t\<close>, the handler answers with status 200 and a body of exactly
  the five fields \<open>success\<close> (true), \<open>ocr_text\<close> (\<open>t\<close> itself), \<open>name\<close>
  (\<open>extract_name t\<close>), \<open>nric_last_4\<close> (\<open>extract_nric_last_4 t\<close>) and
  \<open>timestamp\<close>.
\<close>

theorem verify_nric_success:
  assumes "map_of (files req) ''image'' = Some image_data"
    and "Image_open env image_data = Inr img"
    and "image_to_string env img = Inr t"
  shows "\<exists>name nric_last_4.
           extract_name t = Inr name \<and> extract_nric_last_4 t = Inr nric_last_4
           \<and> fst (verify_nric env req) =
               \<lparr>status = 200,
                body = [(''success'', JBool True), (''ocr_text'', JStr t), (''name'', JStr name),
                        (''nric_last_4'', JStr nric_last_4),
                        (''timestamp'', JStr (timestamp_now env))]\<rparr>"
proof -
  obtain name where n: "extract_name t = Inr name" using extract_name_total by blast
  obtain nric where r: "extract_nric_last_4 t = Inr nric"
    using extract_nric_last_4_total by blast
  show ?thesis using assms n r by (simp add: verify_nric_def)
qed

text \<open>
  The concrete collaborators below are a decoder that hands the uploaded bytes on as
  the image (\<open>Inr\<close>) and an OCR engine that reads them as the text (\<open>Inr\<close>); a
  collaborator that raises is \<open>Inl\<close>, with its argument as the text of the exception.
\<close>

theorem verify_nric_success_witness:
  "fst (verify_nric \<lparr>Image_open = Inr, image_to_string = Inr,
                     timestamp_now = ''2024-05-01 09:30:00 +08''\<rparr>
          \<lparr>files = [(''image'', ''NAME: JOHN DOE S1234567A'')]\<rparr>)
   = \<lparr>status = 200,
      body = [(''success'', JBool True), (''ocr_text'', JStr ''NAME: JOHN DOE S1234567A''),
              (''name'', JStr ''JOHN DOE S''), (''nric_last_4'', JStr ''4567''),
              (''timestamp'', JStr ''2024-05-01 09:30:00 +08'')]\<rparr>"
proof -
  have n: "extract_name ''NAME: JOHN DOE S1234567A'' = Inr ''JOHN DOE S''" by code_simp
  have r: "extract_nric_last_4 ''NAME: JOHN DOE S1234567A'' = Inr ''4567''" by code_simp
  show ?thesis
    using n r
      verify_nric_success [of "\<lparr>files = [(''image'', ''NAME: JOHN DOE S1234567A'')]\<rparr>"
        "''NAME: JOHN DOE S1234567A''"
        "\<lparr>Image_open = Inr, image_to_string = Inr,
          timestamp_now = ''2024-05-01 09:30:00 +08''\<rparr>"
        "''NAME: JOHN DOE S1234567A''" "''NAME: JOHN DOE S1234567A''"]
    by simp
qed

text \<open>
  Claim C7. A request without a field named \<open>image\<close> is answered with status 400
  and the body \<open>{error: "No image provided"}\<close>, whatever the collaborators are, and
  without any call to the decoder, the OCR engine or the heuristics.
\<close>

theorem verify_nric_no_image:
  assumes "map_of (files req) ''image'' = None"
  shows "verify_nric env req
           = (\<lparr>status = 400, body = [(''error'', JStr ''No image provided'')]\<rparr>, [])"
  using assms by (simp add: verify_nric_def)

theorem verify_nric_no_image_witness:
  "verify_nric \<lparr>Image_open = Inr, image_to_string = Inr,
                timestamp_now = ''2024-05-01 09:30:00 +08''\<rparr>
     \<lparr>files = [(''photo'', ''S1234567A'')]\<rparr>
   = (\<lparr>status = 400, body = [(''error'', JStr ''No image provided'')]\<rparr>, [])"
  using verify_nric_no_image [of "\<lparr>files = [(''photo'', ''S1234567A'')]\<rparr>"
      "\<lparr>Image_open = Inr, image_to_string = Inr,
        timestamp_now = ''2024-05-01 09:30:00 +08''\<rparr>"]
  by simp

text \<open>
  Claim C8. When the decoder raises, or the decoder succeeds and the OCR engine raises,
  the handler answers with status 500 and a body that holds only the field
  \<open>error\<close> with the text of the failure. The failing collaborator has been called
  once, and nothing is called after it.
\<close>

theorem verify_nric_failure:
  assumes "map_of (files req) ''image'' = Some image_data"
  shows "(Image_open env image_data = Inl msg
            \<longrightarrow> verify_nric env req
                  = (\<lparr>status = 500, body = [(''error'', JStr msg)]\<rparr>, [Decode]))
       \<and> (Image_open env image_data = Inr img \<and> image_to_string env img = Inl msg
            \<longrightarrow> verify_nric env req
                  = (\<lparr>status = 500, body = [(''error'', JStr msg)]\<rparr>, [Decode, Ocr]))"
  using assms by (simp add: verify_nric_def error_500_def)

theorem verify_nric_failure_witness:
  "verify_nric \<lparr>Image_open = Inl, image_to_string = Inr,
                timestamp_now = ''2024-05-01 09:30:00 +08''\<rparr>
     \<lparr>files = [(''image'', ''cannot identify image file'')]\<rparr>
   = (\<lparr>status = 500, body = [(''error'', JStr ''cannot identify image file'')]\<rparr>, [Decode])
   \<and> verify_nric \<lparr>Image_open = Inr, image_to_string = Inl,
                timestamp_now = ''2024-05-01 09:30:00 +08''\<rparr>
     \<lparr>files = [(''image'', ''tesseract is not installed'')]\<rparr>
   = (\<lparr>status = 500, body = [(''error'', JStr ''tesseract is not installed'')]\<rparr>,
      [Decode, Ocr])"
  using
    verify_nric_failure [of "\<lparr>files = [(''image'', ''cannot identify image file'')]\<rparr>"
      "''cannot identify image file''"
      "\<lparr>Image_open = Inl, image_to_string = Inr,
        timestamp_now = ''2024-05-01 09:30:00 +08''\<rparr>"
      "''cannot identify image file''"]
    verify_nric_failure [of "\<lparr>files = [(''image'', ''tesseract is not installed'')]\<rparr>"
      "''tesseract is not installed''"
      "\<lparr>Image_open = Inr, image_to_string = Inl,
        timestamp_now = ''2024-05-01 09:30:00 +08''\<rparr>"
      "''tesseract is not installed''" "''tesseract is not installed''"]
  by simp

text \<open>
  Claim C1, as stated, fails: the success payload echoes the recognized text in
  \<open>ocr_text\<close>, so a recognized text that holds a full ID puts it into the output.
\<close>

theorem verify_nric_echoes_full_id_counterexample:
  "map_of (body (fst (verify_nric
       \<lparr>Image_open = Inr, image_to_string = Inr, timestamp_now = ''2024-05-01 09:30:00 +08''\<rparr>
       \<lparr>files = [(''image'', ''S1234567A'')]\<rparr>))) ''ocr_text'' = Some (JStr ''S1234567A'')
   \<and> match_nric ''S1234567A'' = Some ''S1234567A''
   \<and> field_has_nric (JStr ''S1234567A'')
   \<and> any_field_has_nric (body (fst (verify_nric
       \<lparr>Image_open = Inr, image_to_string = Inr, timestamp_now = ''2024-05-01 09:30:00 +08''\<rparr>
       \<lparr>files = [(''image'', ''S1234567A'')]\<rparr>)))"
  by code_simp

text \<open>
  Claim C1, amended. In every response of the handler the field \<open>nric_last_4\<close>,
  when present, holds no full ID: it is \<open>Not detected\<close> or exactly four digits.
  The field \<open>ocr_text\<close> of a success response is the recognized text itself, so the
  output holds a full ID whenever the recognized text does.
\<close>

theorem verify_nric_suffix_field_has_no_full_id:
  "(map_of (body (fst (verify_nric env req))) ''nric_last_4'' = Some v
      \<longrightarrow> \<not> field_has_nric v
        \<and> (v = JStr ''Not detected''
            \<or> (\<exists>s. v = JStr s \<and> length s = 4 \<and> list_all is_digit s)))
   \<and> (map_of (files req) ''image'' = Some image_data \<and> Image_open env image_data = Inr img
        \<and> image_to_string env img = Inr t
      \<longrightarrow> map_of (body (fst (verify_nric env req))) ''ocr_text'' = Some (JStr t)
        \<and> (contains_nric t \<longrightarrow> any_field_has_nric (body (fst (verify_nric env req)))))"
proof (intro conjI impI)
  assume "map_of (body (fst (verify_nric env req))) ''nric_last_4'' = Some v"
  then obtain t s where e: "extract_nric_last_4 t = Inr s" and v: "v = JStr s"
    using verify_nric_nric_field by blast
  show "\<not> field_has_nric v" using nric_last_4_no_full_id(1) [OF e] v by simp
  show "v = JStr ''Not detected'' \<or> (\<exists>s. v = JStr s \<and> length s = 4 \<and> list_all is_digit s)"
    using nric_last_4_no_full_id(2) [OF e] v by auto
next
  assume a: "map_of (files req) ''image'' = Some image_data
      \<and> Image_open env image_data = Inr img \<and> image_to_string env img = Inr t"
  obtain name where n: "extract_name t = Inr name" using extract_name_total by blast
  obtain nric where r: "extract_nric_last_4 t = Inr nric"
    using extract_nric_last_4_total by blast
  have b: "body (fst (verify_nric env req))
             = [(''success'', JBool True), (''ocr_text'', JStr t), (''name'', JStr name),
                (''nric_last_4'', JStr nric), (''timestamp'', JStr (timestamp_now env))]"
    using a n r by (simp add: verify_nric_def)
  show "map_of (body (fst (verify_nric env req))) ''ocr_text'' = Some (JStr t)"
    unfolding b by simp
  assume "contains_nric t"
  then show "any_field_has_nric (body (fst (verify_nric env req)))"
    unfolding b by simp
qed

theorem verify_nric_suffix_field_has_no_full_id_witness:
  "map_of (body (fst (verify_nric
       \<lparr>Image_open = Inr, image_to_string = Inr, timestamp_now = ''2024-05-01 09:30:00 +08''\<rparr>
       \<lparr>files = [(''image'', ''NRIC: S1234567A'')]\<rparr>))) ''nric_last_4'' = Some (JStr ''4567'')
   \<and> \<not> field_has_nric (JStr ''4567'')
   \<and> map_of (body (fst (verify_nric
       \<lparr>Image_open = Inr, image_to_string = Inr, timestamp_now = ''2024-05-01 09:30:00 +08''\<rparr>
       \<lparr>files = [(''image'', ''NRIC: S1234567A'')]\<rparr>))) ''ocr_text''
       = Some (JStr ''NRIC: S1234567A'')
   \<and> contains_nric ''NRIC: S1234567A''
   \<and> any_field_has_nric (body (fst (verify_nric
       \<lparr>Image_open = Inr, image_to_string = Inr, timestamp_now = ''2024-05-01 09:30:00 +08''\<rparr>
       \<lparr>files = [(''image'', ''NRIC: S1234567A'')]\<rparr>)))"
proof -
  have a: "map_of (body (fst (verify_nric
       \<lparr>Image_open = Inr, image_to_string = Inr, timestamp_now = ''2024-05-01 09:30:00 +08''\<rparr>
       \<lparr>files = [(''image'', ''NRIC: S1234567A'')]\<rparr>))) ''nric_last_4'' = Some (JStr ''4567'')"
    by code_simp
  have b: "map_of (files \<lparr>files = [(''image'', ''NRIC: S1234567A'')]\<rparr>) ''image''
             = Some ''NRIC: S1234567A''" by simp
  note t = verify_nric_suffix_field_has_no_full_id
      [of "\<lparr>Image_open = Inr, image_to_string = Inr,
            timestamp_now = ''2024-05-01 09:30:00 +08''\<rparr>"
        "\<lparr>files = [(''image'', ''NRIC: S1234567A'')]\<rparr>" "JStr ''4567''"
        "''NRIC: S1234567A''" "''NRIC: S1234567A''" "''NRIC: S1234567A''"]
  have r1: "\<not> field_has_nric (JStr ''4567'')" using t a by blast
  have r2: "map_of (body (fst (verify_nric
       \<lparr>Image_open = Inr, image_to_string = Inr, timestamp_now = ''2024-05-01 09:30:00 +08''\<rparr>
       \<lparr>files = [(''image'', ''NRIC: S1234567A'')]\<rparr>))) ''ocr_text''
       = Some (JStr ''NRIC: S1234567A'')"
    using t b by simp
  have c: "contains_nric ''NRIC: S1234567A''" by code_simp
  have r3: "any_field_has_nric (body (fst (verify_nric
       \<lparr>Image_open = Inr, image_to_string = Inr, timestamp_now = ''2024-05-01 09:30:00 +08''\<rparr>
       \<lparr>files = [(''image'', ''NRIC: S1234567A'')]\<rparr>)))"
    using t b c by simp
  show ?thesis using a r1 r2 c r3 by (intro conjI)
qed

end
